theory Spec2Isabelle
  imports Main "HOL-Library.Stream"
begin

unbundle bit_operations_syntax

section \<open>Paillier core: a shallow embedding of \<^verbatim>\<open>paillier_core.py\<close>\<close>

text \<open>
  Python integers are unbounded, so they are \<^typ>\<open>int\<close>; \<^verbatim>\<open>//\<close> and \<^verbatim>\<open>%\<close> are floor
  division and its remainder, which is what \<open>div\<close> and \<open>mod\<close> are on \<^typ>\<open>int\<close>.
  Every \<^verbatim>\<open>raise\<close> of the source is a value of \<open>error\<close>. The source raises
  \<^verbatim>\<open>ValueError\<close> everywhere and tells the cases apart by the message only; the
  constructors below keep one name per raise site:
  \<^item> \<open>InvalidKeySizeError\<close>: "Bit length minimal 512 ...", "Bit length harus genap";
  \<^item> \<open>UninitializedKeyError\<close>: "Kunci publik belum dibuat", "Private key tidak tersedia",
    "Public key tidak tersedia";
  \<^item> \<open>InvalidPlaintextError\<close>: "Plaintext harus bilangan non-negatif", "Plaintext ... harus < n";
  \<^item> \<open>InvalidConstantError\<close>: "Konstanta harus non-negatif";
  \<^item> \<open>NoModularInverseError\<close>: "Modular inverse dari ... tidak ada".
  The remaining constructors are the exceptions of the Python built-ins and of the
  interpreter: \<open>PyRecursionError\<close> is what the interpreter raises when a call would exceed
  its recursion limit.
\<close>

datatype error =
    InvalidKeySizeError
  | UninitializedKeyError
  | InvalidPlaintextError
  | InvalidConstantError
  | NoModularInverseError
  | PyValueError
  | PyZeroDivisionError
  | PyTypeError
  | PyNonInteger
  | PyRecursionError

subsection \<open>The random source\<close>

text \<open>
  The module \<^verbatim>\<open>random\<close> is an input of the program: an infinite stream of raw
  draws, one element consumed by each call. \<^verbatim>\<open>getrandbits(k)\<close> yields any value of
  \<open>[0, 2^k)\<close> and \<^verbatim>\<open>randrange(lo, hi)\<close> any value of \<open>[lo, hi)\<close>; reducing the raw
  draw makes every stream a legal run and every legal run the image of a stream.
\<close>

type_synonym entropy = "int stream"

definition getrandbits :: "int \<Rightarrow> int \<Rightarrow> int" where
  "getrandbits k x = x mod 2 ^ nat k"

definition randrange :: "int \<Rightarrow> int \<Rightarrow> int \<Rightarrow> int" where
  "randrange lo hi x = lo + x mod (hi - lo)"

subsection \<open>Built-in \<^verbatim>\<open>pow\<close>\<close>

definition pow_mod :: "int \<Rightarrow> int \<Rightarrow> int \<Rightarrow> int" where
  \<comment> \<open>\<^verbatim>\<open>pow(b, e, m)\<close> where \<open>0 \<le> e\<close> and \<open>m \<noteq> 0\<close>\<close>
  "pow_mod b e m = b ^ nat e mod m"

definition py_pow :: "int \<Rightarrow> int \<Rightarrow> int option \<Rightarrow> error + int" where
  \<comment> \<open>\<^verbatim>\<open>pow(b, e, m)\<close> in full: a modulus \<^verbatim>\<open>None\<close> is the two-argument power, a zero
      modulus raises, a negative exponent inverts the base modulo \<open>m\<close> first (any inverse
      gives the same residue) and raises when there is none; the two-argument power with
      a negative exponent leaves the integers.\<close>
  "py_pow b e m =
     (case m of
        None \<Rightarrow> (if 0 \<le> e then Inr (b ^ nat e) else Inl PyNonInteger)
      | Some k \<Rightarrow>
          (if k = 0 then Inl PyValueError
           else if 0 \<le> e then Inr (pow_mod b e k)
           else (case List.find (\<lambda>x. (b * x) mod k = 1 mod k) [0..\<bar>k\<bar> - 1] of
                   None \<Rightarrow> Inl PyValueError
                 | Some x \<Rightarrow> Inr (pow_mod x (- e) k))))"

definition py_mod :: "int \<Rightarrow> int option \<Rightarrow> error + int" where
  \<comment> \<open>\<^verbatim>\<open>x % m\<close> where \<open>m\<close> may be \<^verbatim>\<open>None\<close> or zero\<close>
  "py_mod x m =
     (case m of
        None \<Rightarrow> Inl PyTypeError
      | Some k \<Rightarrow> (if k = 0 then Inl PyZeroDivisionError else Inr (x mod k)))"

subsection \<open>The object\<close>

record public_key_t =
  pk_n :: int
  pk_g :: int

record private_key_t =
  sk_lambda :: int
  sk_mu :: int
  sk_n :: int

record paillier_core =
  bit_length :: int
  public_key :: "public_key_t option"
  private_key :: "private_key_t option"
  n_squared :: "int option"

subsection \<open>Miller-Rabin\<close>

text \<open>
  \<^verbatim>\<open>while d % 2 == 0: r += 1; d //= 2\<close>. At \<open>d = 0\<close> the loop never exits, which is
  the value \<open>None\<close>; everywhere else it halves \<open>\<bar>d\<bar>\<close>.
\<close>

function two_adic :: "int \<Rightarrow> int \<Rightarrow> (int \<times> int) option" where
  "two_adic r d =
     (if d = 0 then None
      else if d mod 2 = 0 then two_adic (r + 1) (d div 2)
      else Some (r, d))"
  by pat_completeness auto
termination
  by (relation "measure (\<lambda>(r, d). nat \<bar>d\<bar>)") auto

declare two_adic.simps [simp del]

text \<open>
  \<^verbatim>\<open>for _ in range(r - 1): x = pow(x, 2, n); if x == n - 1: composite_found = False; break\<close>;
  the result is \<^verbatim>\<open>composite_found\<close>.
\<close>

fun mr_square_loop :: "nat \<Rightarrow> int \<Rightarrow> int \<Rightarrow> bool" where
  "mr_square_loop 0 x n = True"
| "mr_square_loop (Suc k) x n =
     (let x' = pow_mod x 2 n in
      if x' = n - 1 then False else mr_square_loop k x' n)"

text \<open>The rounds: \<^verbatim>\<open>for _ in range(rounds)\<close>, one draw per round that is run.\<close>

fun mr_rounds :: "nat \<Rightarrow> int \<Rightarrow> int \<Rightarrow> int \<Rightarrow> entropy \<Rightarrow> bool \<times> entropy" where
  "mr_rounds 0 n r d rnd = (True, rnd)"
| "mr_rounds (Suc k) n r d rnd =
     (let a = randrange 2 (n - 1) (shd rnd);
          x = pow_mod a d n
      in if x = 1 \<or> x = n - 1 then mr_rounds k n r d (stl rnd)
         else if mr_square_loop (nat (r - 1)) x n then (False, stl rnd)
         else mr_rounds k n r d (stl rnd))"

definition miller_rabin_test :: "int \<Rightarrow> int \<Rightarrow> entropy \<Rightarrow> (bool \<times> entropy) option" where
  "miller_rabin_test n rounds rnd =
     (if n < 2 then Some (False, rnd)
      else if n = 2 \<or> n = 3 then Some (True, rnd)
      else if n mod 2 = 0 then Some (False, rnd)
      else (case two_adic 0 (n - 1) of
              None \<Rightarrow> None
            | Some (r, d) \<Rightarrow> Some (mr_rounds (nat rounds) n r d rnd)))"

subsection \<open>Prime generation\<close>

definition small_primes :: "int list" where
  "small_primes = [3, 5, 7, 11, 13, 17, 19, 23, 29, 31]"

definition small_prime_hit :: "int \<Rightarrow> bool" where
  \<comment> \<open>\<^verbatim>\<open>any(candidate % p == 0 for p in small_primes if candidate != p)\<close>\<close>
  "small_prime_hit candidate =
     list_ex (\<lambda>p. candidate \<noteq> p \<and> candidate mod p = 0) small_primes"

definition make_candidate :: "int \<Rightarrow> int \<Rightarrow> int" where
  \<comment> \<open>the draw with its top bit and its bottom bit set\<close>
  "make_candidate bl x = (getrandbits bl x OR push_bit (nat (bl - 1)) 1) OR 1"

text \<open>
  \<^verbatim>\<open>while True\<close>: the loop has no exit but the \<^verbatim>\<open>return\<close>, so a run that never
  finds a candidate is the value \<open>None\<close>. \<^verbatim>\<open>getrandbits\<close> of a negative count and a
  shift by a negative count raise \<^verbatim>\<open>ValueError\<close>.
\<close>

partial_function (option) generate_prime ::
    "int \<Rightarrow> entropy \<Rightarrow> (error + int \<times> entropy) option" where
  "generate_prime bl rnd =
     (if bl < 1 then Some (Inl PyValueError)
      else
        (let candidate = make_candidate bl (shd rnd) in
         if small_prime_hit candidate then generate_prime bl (stl rnd)
         else (case miller_rabin_test candidate 10 (stl rnd) of
                 None \<Rightarrow> None
               | Some (passed, rnd') \<Rightarrow>
                   if passed then Some (Inr (candidate, rnd'))
                   else generate_prime bl rnd')))"

subsection \<open>Arithmetic helpers\<close>

definition compute_lcm :: "int \<Rightarrow> int \<Rightarrow> error + int" where
  "compute_lcm a b =
     (if gcd a b = 0 then Inl PyZeroDivisionError
      else Inr (\<bar>a * b\<bar> div gcd a b))"

text \<open>
  \<^verbatim>\<open>_extended_gcd\<close> is recursive, one interpreter frame per division step, and the
  interpreter bounds the depth of its stack (1000 frames unless the program raises the
  limit, which no file of the repository does). \<open>frames\<close> is the number of frames the
  interpreter has left when \<^verbatim>\<open>_modular_inverse\<close> calls \<^verbatim>\<open>_extended_gcd\<close>; a call that
  finds none left raises \<^verbatim>\<open>RecursionError\<close>. It is a parameter of the environment, as the
  random source is, and the callers hand it down. Under the limit of 1000 it is at most
  999, since the frame of \<^verbatim>\<open>_modular_inverse\<close> itself is on the stack; the runs evaluated
  below take 990, which leaves room for ten frames of callers.
\<close>

fun extended_gcd :: "nat \<Rightarrow> int \<Rightarrow> int \<Rightarrow> error + int \<times> int \<times> int" where
  "extended_gcd 0 a b = Inl PyRecursionError"
| "extended_gcd (Suc frames) a b =
     (if a = 0 then Inr (b, 0, 1)
      else (case extended_gcd frames (b mod a) a of
              Inl e \<Rightarrow> Inl e
            | Inr (g, x1, y1) \<Rightarrow> Inr (g, y1 - (b div a) * x1, x1)))"

text \<open>The number of frames the recursion of \<^verbatim>\<open>_extended_gcd(a, b)\<close> needs.\<close>

function euclid_depth :: "int \<Rightarrow> int \<Rightarrow> nat" where
  "euclid_depth a b = (if a = 0 then 1 else Suc (euclid_depth (b mod a) a))"
  by pat_completeness auto
termination
  by (relation "measure (\<lambda>(a, b). nat \<bar>a\<bar>)") (auto simp: abs_mod_less)

declare euclid_depth.simps [simp del]

definition modular_inverse :: "nat \<Rightarrow> int \<Rightarrow> int \<Rightarrow> error + int" where
  "modular_inverse frames a m =
     (if m = 0 then Inl PyZeroDivisionError
      else (case extended_gcd frames (a mod m) m of
              Inl e \<Rightarrow> Inl e
            | Inr (g, x, y) \<Rightarrow>
                if g \<noteq> 1 then Inl NoModularInverseError
                else Inr ((x mod m + m) mod m)))"

subsection \<open>Key generation\<close>

text \<open>
  The part of \<^verbatim>\<open>_generate_keypair\<close> after the two primes are chosen (steps 2 to 6).
  An exception leaves the constructor, so no object exists then.
\<close>

definition store_keypair ::
    "nat \<Rightarrow> paillier_core \<Rightarrow> int \<Rightarrow> int \<Rightarrow> error + paillier_core" where
  "store_keypair frames self p q =
     (let n = p * q in
      case compute_lcm (p - 1) (q - 1) of
        Inl e \<Rightarrow> Inl e
      | Inr lambda_n \<Rightarrow>
          (let g = n + 1 in
           case modular_inverse frames lambda_n n of
             Inl e \<Rightarrow> Inl e
           | Inr mu \<Rightarrow>
               Inr (self\<lparr>n_squared := Some (n * n),
                          public_key := Some \<lparr>pk_n = n, pk_g = g\<rparr>,
                          private_key := Some \<lparr>sk_lambda = lambda_n, sk_mu = mu, sk_n = n\<rparr>\<rparr>)))"

text \<open>\<^verbatim>\<open>while p == q: q = self._generate_prime(self.bit_length // 2)\<close>\<close>

partial_function (option) resample_q ::
    "int \<Rightarrow> int \<Rightarrow> int \<Rightarrow> entropy \<Rightarrow> (error + int \<times> entropy) option" where
  "resample_q bl p q rnd =
     (if p = q then
        (case generate_prime bl rnd of
           None \<Rightarrow> None
         | Some (Inl e) \<Rightarrow> Some (Inl e)
         | Some (Inr (q', rnd')) \<Rightarrow> resample_q bl p q' rnd')
      else Some (Inr (q, rnd)))"

definition generate_keypair ::
    "nat \<Rightarrow> paillier_core \<Rightarrow> entropy \<Rightarrow> (error + paillier_core \<times> entropy) option" where
  "generate_keypair frames self rnd =
     (case generate_prime (bit_length self div 2) rnd of
        None \<Rightarrow> None
      | Some (Inl e) \<Rightarrow> Some (Inl e)
      | Some (Inr (p, rnd1)) \<Rightarrow>
          (case generate_prime (bit_length self div 2) rnd1 of
             None \<Rightarrow> None
           | Some (Inl e) \<Rightarrow> Some (Inl e)
           | Some (Inr (q0, rnd2)) \<Rightarrow>
               (case resample_q (bit_length self div 2) p q0 rnd2 of
                  None \<Rightarrow> None
                | Some (Inl e) \<Rightarrow> Some (Inl e)
                | Some (Inr (q, rnd3)) \<Rightarrow>
                    (case store_keypair frames self p q of
                       Inl e \<Rightarrow> Some (Inl e)
                     | Inr self' \<Rightarrow> Some (Inr (self', rnd3))))))"

definition PaillierCore_init ::
    "nat \<Rightarrow> int \<Rightarrow> entropy \<Rightarrow> (error + paillier_core \<times> entropy) option" where
  "PaillierCore_init frames bl rnd =
     (if bl < 512 then Some (Inl InvalidKeySizeError)
      else generate_keypair frames
             \<lparr>bit_length = bl, public_key = None, private_key = None, n_squared = None\<rparr> rnd)"

definition create_paillier_instance ::
    "nat \<Rightarrow> int \<Rightarrow> entropy \<Rightarrow> (error + paillier_core \<times> entropy) option" where
  "create_paillier_instance frames bl rnd =
     (if bl < 512 then Some (Inl InvalidKeySizeError)
      else if bl mod 2 \<noteq> 0 then Some (Inl InvalidKeySizeError)
      else PaillierCore_init frames bl rnd)"

subsection \<open>Encryption, decryption and the homomorphic operations\<close>

definition L_function :: "paillier_core \<Rightarrow> int \<Rightarrow> error + int" where
  "L_function self x =
     (case public_key self of
        None \<Rightarrow> Inl PyTypeError
      | Some pk \<Rightarrow>
          (if pk_n pk = 0 then Inl PyZeroDivisionError
           else Inr ((x - 1) div pk_n pk)))"




definition decrypt :: "paillier_core \<Rightarrow> int \<Rightarrow> error + int" where
  "decrypt self ciphertext =
     (case private_key self of
        None \<Rightarrow> Inl UninitializedKeyError
      | Some sk \<Rightarrow>
          (let lambda_n = sk_lambda sk; mu = sk_mu sk; n = sk_n sk in
           case py_pow ciphertext lambda_n (n_squared self) of
             Inl e \<Rightarrow> Inl e
           | Inr c_lambda \<Rightarrow>
               (case L_function self c_lambda of
                  Inl e \<Rightarrow> Inl e
                | Inr l_result \<Rightarrow> py_mod (l_result * mu) (Some n))))"



subsection \<open>Primality\<close>


text \<open>
  What \<^verbatim>\<open>_generate_prime\<close> checks of the value it returns: no small prime divides it, and
  it passed the ten rounds of \<^verbatim>\<open>_miller_rabin_test\<close> on some run of the random source.
\<close>

definition probable_prime :: "int \<Rightarrow> bool" where
  "probable_prime c \<longleftrightarrow>
     \<not> small_prime_hit c \<and> (\<exists>rnd rnd'. miller_rabin_test c 10 rnd = Some (True, rnd'))"

subsection \<open>A small run of key generation\<close>

text \<open>
  A run of \<^verbatim>\<open>_generate_keypair\<close> small enough to evaluate: at bit length 6 the primes have
  three bits. On the draws of \<open>tiny_run\<close> the first candidate is 5, its ten Miller-Rabin
  rounds use the next ten draws, and the second candidate is 7; the key stored is
  \<open>n = 35\<close>, \<open>g = 36\<close>, \<open>lambda = lcm 4 6 = 12\<close>, \<open>mu = 3\<close>.
\<close>

definition tiny_core :: paillier_core where
  "tiny_core = \<lparr>bit_length = 6, public_key = None, private_key = None, n_squared = None\<rparr>"

definition tiny_key :: paillier_core where
  "tiny_key = \<lparr>bit_length = 6,
      public_key = Some \<lparr>pk_n = 35, pk_g = 36\<rparr>,
      private_key = Some \<lparr>sk_lambda = 12, sk_mu = 3, sk_n = 35\<rparr>,
      n_squared = Some 1225\<rparr>"

definition tiny_run :: entropy where
  "tiny_run = [0, 0, 0, 0, 0, 0, 0, 0, 0, 0, 0] @- sconst 2"

subsection \<open>Inputs on which Euclid's algorithm is slowest\<close>

text \<open>The Fibonacci numbers: on two consecutive ones every division step has quotient 1.\<close>

fun fib :: "nat \<Rightarrow> int" where
  "fib 0 = 0"
| "fib (Suc 0) = 1"
| "fib (Suc (Suc n)) = fib n + fib (Suc n)"

subsection \<open>Two runs of key generation that accept a composite\<close>







section \<open>Extended Euclid and the modular inverse\<close>

lemma extended_gcd_bezout:
  "extended_gcd frames a b = Inr (g, x, y) \<Longrightarrow> a * x + b * y = g"
proof (induction frames arbitrary: a b g x y)
  case 0
  then show ?case by simp
next
  case (Suc frames)
  show ?case
  proof (cases "a = 0")
    case True
    with Suc.prems show ?thesis by simp
  next
    case False
    with Suc.prems obtain g1 x1 y1 where
      rec: "extended_gcd frames (b mod a) a = Inr (g1, x1, y1)"
      and eqs: "g = g1" "x = y1 - (b div a) * x1" "y = x1"
      by (auto split: sum.splits)
    from Suc.IH[OF rec] have ih: "(b mod a) * x1 + a * y1 = g1" .
    have alg: "a * (y1 - k * x1) + (a * k + r) * x1 = r * x1 + a * y1" for k r :: int
      by (simp add: algebra_simps)
    from alg[of "b div a" "b mod a"]
    have "a * x + b * y = (b mod a) * x1 + a * y1"
      unfolding eqs by (simp only: mult_div_mod_eq)
    with ih eqs show ?thesis by simp
  qed
qed

lemma extended_gcd_fst:
  "0 \<le> a \<Longrightarrow> 0 \<le> b \<Longrightarrow> extended_gcd frames a b = Inr (g, x, y) \<Longrightarrow> g = gcd a b"
proof (induction frames arbitrary: a b g x y)
  case 0
  then show ?case by simp
next
  case (Suc frames)
  show ?case
  proof (cases "a = 0")
    case True
    with Suc.prems show ?thesis by simp
  next
    case False
    with Suc.prems obtain g1 x1 y1 where
      rec: "extended_gcd frames (b mod a) a = Inr (g1, x1, y1)" and g: "g = g1"
      by (auto split: sum.splits)
    from False Suc.prems have "0 < a" by simp
    then have "0 \<le> b mod a" by simp
    from Suc.IH[OF this Suc.prems(1) rec] have "g1 = gcd (b mod a) a" .
    moreover have "gcd (b mod a) a = gcd a b"
      by (metis gcd.commute gcd_red_int)
    ultimately show ?thesis using g by simp
  qed
qed

lemma extended_gcd_InlD:
  "extended_gcd frames a b = Inl e \<Longrightarrow> e = PyRecursionError"
  by (induction frames arbitrary: a b) (auto split: if_splits sum.splits)

lemma extended_gcd_enough:
  "euclid_depth a b \<le> frames \<Longrightarrow> \<exists>res. extended_gcd frames a b = Inr res"
proof (induction frames arbitrary: a b)
  case 0
  then show ?case by (subst (asm) euclid_depth.simps) (simp split: if_splits)
next
  case (Suc frames)
  show ?case
  proof (cases "a = 0")
    case True
    then show ?thesis by simp
  next
    case False
    with Suc.prems have "euclid_depth (b mod a) a \<le> frames"
      by (subst (asm) euclid_depth.simps) simp
    from Suc.IH[OF this] obtain res where "extended_gcd frames (b mod a) a = Inr res" ..
    with False show ?thesis by (cases res) simp
  qed
qed

lemma extended_gcd_short:
  "frames < euclid_depth a b \<Longrightarrow> extended_gcd frames a b = Inl PyRecursionError"
proof (induction frames arbitrary: a b)
  case 0
  show ?case by simp
next
  case (Suc frames)
  from Suc.prems have a: "a \<noteq> 0" and "frames < euclid_depth (b mod a) a"
    by (subst (asm) euclid_depth.simps, simp split: if_splits)+
  from Suc.IH[OF this(2)] a show ?case by simp
qed

lemma modular_inverse_InrD:
  assumes m: "0 < m" and r: "modular_inverse frames a m = Inr x"
  shows "gcd a m = 1 \<and> 0 \<le> x \<and> x < m \<and> (a * x) mod m = 1 mod m"
proof -
  from m r obtain g1 x1 y1 where rec: "extended_gcd frames (a mod m) m = Inr (g1, x1, y1)"
    and g1: "g1 = 1" and x: "x = x1 mod m"
    by (auto simp: modular_inverse_def split: sum.splits if_splits)
  from m have nn: "0 \<le> a mod m" "0 \<le> m" by simp_all
  from extended_gcd_fst[OF nn rec] have "g1 = gcd (a mod m) m" .
  also have "\<dots> = gcd a m"
    by (metis gcd.commute gcd_red_int)
  finally have g: "gcd a m = 1" using g1 by simp
  have bez: "(a mod m) * x1 + m * y1 = 1"
    using extended_gcd_bezout[OF rec] g1 by simp
  have "(a * (x1 mod m)) mod m = ((a mod m) * x1) mod m"
    by (simp add: mod_mult_right_eq mod_mult_left_eq)
  also have "\<dots> = ((a mod m) * x1 + m * y1) mod m"
    by simp
  also have "\<dots> = 1 mod m" using bez by simp
  finally have "(a * (x1 mod m)) mod m = 1 mod m" .
  with g x m show ?thesis by simp
qed

lemma modular_inverse_InlD:
  "modular_inverse frames a m = Inl e \<Longrightarrow>
     e = PyZeroDivisionError \<or> e = NoModularInverseError \<or> e = PyRecursionError"
  by (auto simp: modular_inverse_def split: sum.splits if_splits dest: extended_gcd_InlD)

lemma modular_inverse_Inr:
  assumes m: "0 < m" and g: "gcd a m = 1" and d: "euclid_depth (a mod m) m \<le> frames"
  shows "\<exists>x. modular_inverse frames a m = Inr x \<and> 0 \<le> x \<and> x < m \<and> (a * x) mod m = 1 mod m"
proof -
  from extended_gcd_enough[OF d] obtain g1 x1 y1 where
    rec: "extended_gcd frames (a mod m) m = Inr (g1, x1, y1)"
    by (metis prod_cases3)
  from m have nn: "0 \<le> a mod m" "0 \<le> m" by simp_all
  from extended_gcd_fst[OF nn rec] have "g1 = gcd (a mod m) m" .
  also have "\<dots> = gcd a m"
    by (metis gcd.commute gcd_red_int)
  finally have "g1 = 1" using g by simp
  with m rec have "modular_inverse frames a m = Inr (x1 mod m)"
    by (simp add: modular_inverse_def)
  with modular_inverse_InrD[OF m this] show ?thesis by simp
qed

lemma modular_inverse_Inl:
  assumes m: "0 < m" and g: "gcd a m \<noteq> 1" and d: "euclid_depth (a mod m) m \<le> frames"
  shows "modular_inverse frames a m = Inl NoModularInverseError"
proof -
  from extended_gcd_enough[OF d] obtain g1 x1 y1 where
    rec: "extended_gcd frames (a mod m) m = Inr (g1, x1, y1)"
    by (metis prod_cases3)
  from m have nn: "0 \<le> a mod m" "0 \<le> m" by simp_all
  from extended_gcd_fst[OF nn rec] have "g1 = gcd (a mod m) m" .
  also have "\<dots> = gcd a m"
    by (metis gcd.commute gcd_red_int)
  finally have "g1 \<noteq> 1" using g by simp
  with m rec show ?thesis by (simp add: modular_inverse_def)
qed

lemma modular_inverse_deep:
  assumes m: "m \<noteq> 0" and d: "frames < euclid_depth (a mod m) m"
  shows "modular_inverse frames a m = Inl PyRecursionError"
  using m extended_gcd_short[OF d] by (simp add: modular_inverse_def)

section \<open>Primes and Fermat's little theorem\<close>










section \<open>Arithmetic modulo \<open>n\<close> squared\<close>











section \<open>Generated keys\<close>

lemma compute_lcm_eq:
  "gcd a b \<noteq> 0 \<Longrightarrow> compute_lcm a b = Inr (lcm a b)"
  by (simp add: compute_lcm_def lcm_altdef_int abs_mult)

lemma store_keypair_InrD:
  assumes k: "store_keypair frames self p q = Inr k" and p: "1 < p" and q: "1 < q"
  shows "\<exists>mu. k = self\<lparr>n_squared := Some (p * q * (p * q)),
                      public_key := Some \<lparr>pk_n = p * q, pk_g = p * q + 1\<rparr>,
                      private_key := Some \<lparr>sk_lambda = lcm (p - 1) (q - 1), sk_mu = mu, sk_n = p * q\<rparr>\<rparr>
              \<and> modular_inverse frames (lcm (p - 1) (q - 1)) (p * q) = Inr mu
              \<and> 0 \<le> mu \<and> mu < p * q
              \<and> (lcm (p - 1) (q - 1) * mu) mod (p * q) = 1
              \<and> gcd (lcm (p - 1) (q - 1)) (p * q) = 1"
proof -
  from p q have n: "1 < p * q"
    by (metis less_1_mult)
  from p have "gcd (p - 1) (q - 1) \<noteq> 0" by simp
  then have l: "compute_lcm (p - 1) (q - 1) = Inr (lcm (p - 1) (q - 1))"
    by (rule compute_lcm_eq)
  from k l obtain mu where mu: "modular_inverse frames (lcm (p - 1) (q - 1)) (p * q) = Inr mu"
    and kk: "k = self\<lparr>n_squared := Some (p * q * (p * q)),
                      public_key := Some \<lparr>pk_n = p * q, pk_g = p * q + 1\<rparr>,
                      private_key := Some \<lparr>sk_lambda = lcm (p - 1) (q - 1), sk_mu = mu, sk_n = p * q\<rparr>\<rparr>"
    by (auto simp: store_keypair_def Let_def split: sum.splits)
  from n have "0 < p * q" by simp
  from modular_inverse_InrD[OF this mu] n kk mu show ?thesis by auto
qed


text \<open>What decryption computes on a generated key.\<close>

lemma decrypt_generated:
  assumes k: "store_keypair frames self p q = Inr k" and p: "1 < p" and q: "1 < q"
  shows "\<exists>mu. private_key k = Some \<lparr>sk_lambda = lcm (p - 1) (q - 1), sk_mu = mu, sk_n = p * q\<rparr>
     \<and> (lcm (p - 1) (q - 1) * mu) mod (p * q) = 1
     \<and> decrypt k c =
        Inr (((c ^ nat (lcm (p - 1) (q - 1)) mod (p * q * (p * q)) - 1) div (p * q) * mu) mod (p * q))"
proof -
  from p q have n: "1 < p * q" by (metis less_1_mult)
  from store_keypair_InrD[OF k p q] obtain mu where
    kk: "k = self\<lparr>n_squared := Some (p * q * (p * q)),
                      public_key := Some \<lparr>pk_n = p * q, pk_g = p * q + 1\<rparr>,
                      private_key := Some \<lparr>sk_lambda = lcm (p - 1) (q - 1), sk_mu = mu, sk_n = p * q\<rparr>\<rparr>"
    and mu: "(lcm (p - 1) (q - 1) * mu) mod (p * q) = 1" by blast
  from n have nz: "p * q \<noteq> 0" "p \<noteq> 0" "q \<noteq> 0" by auto
  have "decrypt k c =
        Inr (((c ^ nat (lcm (p - 1) (q - 1)) mod (p * q * (p * q)) - 1) div (p * q) * mu) mod (p * q))"
    using nz by (simp add: kk decrypt_def py_pow_def py_mod_def L_function_def pow_mod_def)
  with kk mu show ?thesis by simp
qed


section \<open>The sampling loop and encryption\<close>










section \<open>The homomorphic operations on a generated key\<close>




section \<open>Prime generation and key generation\<close>

lemma two_adic_Some:
  "d \<noteq> 0 \<Longrightarrow> \<exists>res. two_adic r d = Some res"
proof (induction r d rule: two_adic.induct)
  case (1 r d)
  show ?case
  proof (cases "d mod 2 = 0")
    case True
    with "1.prems" have "d div 2 \<noteq> 0" by presburger
    from "1.IH"[OF "1.prems" True this] "1.prems" True show ?thesis
      by (subst two_adic.simps) simp
  next
    case False
    with "1.prems" show ?thesis by (subst two_adic.simps) simp
  qed
qed

lemma miller_rabin_test_Some:
  "\<exists>b rnd'. miller_rabin_test n rounds rnd = Some (b, rnd')"
proof (cases "n < 2 \<or> n = 2 \<or> n = 3 \<or> n mod 2 = 0")
  case True
  then show ?thesis by (auto simp: miller_rabin_test_def)
next
  case False
  then have "n - 1 \<noteq> 0" by auto
  from two_adic_Some[OF this, of 0] obtain r d where "two_adic 0 (n - 1) = Some (r, d)"
    by auto
  with False show ?thesis
    by (cases "mr_rounds (nat rounds) n r d rnd") (simp add: miller_rabin_test_def)
qed

lemma miller_rabin_test_True:
  "miller_rabin_test n rounds rnd = Some (True, rnd') \<Longrightarrow> 2 \<le> n"
  by (auto simp: miller_rabin_test_def split: if_splits)

lemma generate_prime_props:
  assumes "generate_prime bl rnd = Some res"
  shows "case res of
           Inl e \<Rightarrow> bl < 1 \<and> e = PyValueError
         | Inr (c, rnd') \<Rightarrow> 1 \<le> bl \<and> 2 \<le> c \<and> (\<exists>x. c = make_candidate bl x) \<and> probable_prime c"
  using assms
proof (induction bl rnd res rule: generate_prime.raw_induct[rotated 1, consumes 1])
  case (1 f bl rnd res)
  show ?case
  proof (cases "bl < 1")
    case True
    with "1.hyps" show ?thesis by auto
  next
    case bl: False
    let ?c = "make_candidate bl (shd rnd)"
    show ?thesis
    proof (cases "small_prime_hit ?c")
      case True
      with bl "1.hyps" have "f bl (stl rnd) = Some res" by (simp add: Let_def)
      then show ?thesis by (rule "1.IH")
    next
      case hit: False
      from miller_rabin_test_Some[of ?c 10 "stl rnd"] obtain b rnd1 where
        mr: "miller_rabin_test ?c 10 (stl rnd) = Some (b, rnd1)" by blast
      show ?thesis
      proof (cases b)
        case True
        with bl hit mr "1.hyps" have res: "res = Inr (?c, rnd1)" by (simp add: Let_def)
        from mr True have "probable_prime ?c"
          using hit by (auto simp: probable_prime_def)
        moreover from mr True have "2 \<le> ?c" by (auto dest: miller_rabin_test_True)
        ultimately show ?thesis using bl res by auto
      next
        case False
        with bl hit mr "1.hyps" have "f bl rnd1 = Some res" by (simp add: Let_def)
        then show ?thesis by (rule "1.IH")
      qed
    qed
  qed
qed

lemma generate_prime_InrD:
  assumes "generate_prime bl rnd = Some (Inr (c, rnd'))"
  shows "1 \<le> bl \<and> 2 \<le> c \<and> (\<exists>x. c = make_candidate bl x) \<and> probable_prime c"
  using generate_prime_props[OF assms] by simp

lemma generate_prime_InlD:
  assumes "generate_prime bl rnd = Some (Inl e)"
  shows "bl < 1 \<and> e = PyValueError"
  using generate_prime_props[OF assms] by simp

lemma generate_prime_SomeD:
  assumes "generate_prime bl rnd = Some res" and "1 \<le> bl"
  shows "\<exists>i. \<not> small_prime_hit (make_candidate bl (rnd !! i))"
  using assms
proof (induction bl rnd res rule: generate_prime.raw_induct[rotated 1, consumes 1])
  case (1 f bl rnd res)
  show ?case
  proof (cases "small_prime_hit (make_candidate bl (shd rnd))")
    case True
    with "1.hyps" "1.prems" have "f bl (stl rnd) = Some res" by (simp add: Let_def)
    from "1.IH"[OF this "1.prems"] obtain i where
      "\<not> small_prime_hit (make_candidate bl (stl rnd !! i))" ..
    then have "\<not> small_prime_hit (make_candidate bl (rnd !! Suc i))" by simp
    then show ?thesis ..
  next
    case False
    then have "\<not> small_prime_hit (make_candidate bl (rnd !! 0))" by simp
    then show ?thesis ..
  qed
qed

lemma generate_prime_sconst:
  assumes "1 \<le> bl" and "small_prime_hit (make_candidate bl x)"
  shows "generate_prime bl (sconst x) = None"
proof (cases "generate_prime bl (sconst x)")
  case (Some res)
  from generate_prime_SomeD[OF Some assms(1)] obtain i where
    "\<not> small_prime_hit (make_candidate bl (sconst x !! i))" ..
  moreover have "sconst x !! i = x"
    using snth_sset[of "sconst x" i] by (simp del: snth_siterate)
  ultimately show ?thesis using assms(2) by simp
qed simp

lemma candidate_256_0: "small_prime_hit (make_candidate 256 0)"
  by (simp add: small_prime_hit_def small_primes_def make_candidate_def getrandbits_def)

lemma resample_q_props:
  assumes "resample_q bl p q rnd = Some res" and "2 \<le> q" and "probable_prime q"
  shows "case res of Inl e \<Rightarrow> True | Inr (q', rnd') \<Rightarrow> q' \<noteq> p \<and> 2 \<le> q' \<and> probable_prime q'"
  using assms
proof (induction bl p q rnd res rule: resample_q.raw_induct[rotated 1, consumes 1])
  case (1 f bl p q rnd res)
  show ?case
  proof (cases "p = q")
    case False
    with "1.hyps" "1.prems" show ?thesis by auto
  next
    case True
    show ?thesis
    proof (cases "generate_prime bl rnd")
      case None
      with True "1.hyps" show ?thesis by simp
    next
      case (Some r)
      show ?thesis
      proof (cases r)
        case (Inl e)
        with Some True "1.hyps" show ?thesis by auto
      next
        case (Inr cr)
        obtain q' rnd1 where cr: "cr = (q', rnd1)" by (cases cr)
        with Inr Some True "1.hyps" have "f bl p q' rnd1 = Some res" by simp
        moreover from generate_prime_InrD[of bl rnd q' rnd1] Some Inr cr
        have "2 \<le> q'" "probable_prime q'" by simp_all
        ultimately show ?thesis by (rule "1.IH")
      qed
    qed
  qed
qed

lemma generate_keypair_SomeD:
  assumes "generate_keypair frames self rnd = Some (Inr (k, rnd'))"
  shows "\<exists>p q. 2 \<le> p \<and> 2 \<le> q \<and> p \<noteq> q \<and> probable_prime p \<and> probable_prime q \<and>
           store_keypair frames self p q = Inr k"
proof -
  let ?b = "bit_length self div 2"
  from assms obtain p rnd1 where p: "generate_prime ?b rnd = Some (Inr (p, rnd1))"
    by (auto simp: generate_keypair_def split: option.splits sum.splits)
  with assms obtain q0 rnd2 where q0: "generate_prime ?b rnd1 = Some (Inr (q0, rnd2))"
    by (auto simp: generate_keypair_def split: option.splits sum.splits)
  with assms p obtain q rnd3 where q: "resample_q ?b p q0 rnd2 = Some (Inr (q, rnd3))"
    by (auto simp: generate_keypair_def split: option.splits sum.splits)
  with assms p q0 have k: "store_keypair frames self p q = Inr k"
    by (auto simp: generate_keypair_def split: option.splits sum.splits)
  from generate_prime_InrD[OF p] have pp: "2 \<le> p" "probable_prime p" by simp_all
  from generate_prime_InrD[OF q0] have "2 \<le> q0" "probable_prime q0" by simp_all
  from resample_q_props[OF q this] have "q \<noteq> p" "2 \<le> q" "probable_prime q" by simp_all
  with pp k show ?thesis by blast
qed

lemma make_candidate_bounds:
  assumes bl: "1 \<le> bl"
  shows "2 ^ nat (bl - 1) \<le> make_candidate bl x" "make_candidate bl x < 2 ^ nat bl"
    "odd (make_candidate bl x)"
proof -
  let ?y = "getrandbits bl x"
  let ?t = "push_bit (nat (bl - 1)) (1::int)"
  have y: "0 \<le> ?y" "?y < 2 ^ nat bl" by (simp_all add: getrandbits_def)
  have t: "?t = 2 ^ nat (bl - 1)" by (simp add: push_bit_eq_mult)
  from bl have "nat (bl - 1) < nat bl" by simp
  then have tlt: "?t < 2 ^ nat bl" unfolding t by (simp add: power_strict_increasing)
  have t0: "0 \<le> ?t" by (simp add: t)
  have yt: "0 \<le> ?y OR ?t" using y(1) t0 by simp
  have "?t \<le> ?t OR ?y" using y(1) by (rule or_greater_eq)
  then have lo1: "?t \<le> ?y OR ?t" by (simp add: or.commute)
  have hi1: "?y OR ?t < 2 ^ nat bl" using y tlt by (intro OR_upper) simp_all
  have "?y OR ?t \<le> (?y OR ?t) OR 1" by (rule or_greater_eq) simp
  with lo1 show "2 ^ nat (bl - 1) \<le> make_candidate bl x"
    by (simp add: make_candidate_def t)
  from bl have "0 < nat bl" by simp
  then have one: "(1::int) < 2 ^ nat bl" by (simp add: one_less_power)
  from OR_upper[OF yt hi1 one] show "make_candidate bl x < 2 ^ nat bl"
    by (simp add: make_candidate_def)
  show "odd (make_candidate bl x)"
    by (simp add: make_candidate_def even_or_iff)
qed

section \<open>A run of key generation at bit length 6\<close>

lemma tiny_candidates: "make_candidate 3 0 = 5" "make_candidate 3 2 = 7"
  by (simp_all add: make_candidate_def getrandbits_def)

lemma tiny_no_hit: "\<not> small_prime_hit 5" "\<not> small_prime_hit 7"
  by (simp_all add: small_prime_hit_def small_primes_def)

lemma two_adic_4: "two_adic 0 4 = Some (2, 1)"
  by (subst two_adic.simps, simp)+

lemma two_adic_6: "two_adic 0 6 = Some (1, 3)"
  by (subst two_adic.simps, simp)+

lemma mr_rounds_5: "mr_rounds j 5 2 1 rnd = (True, sdrop j rnd)"
proof (induction j arbitrary: rnd)
  case 0
  show ?case by simp
next
  case (Suc j)
  have "shd rnd mod 2 = 0 \<or> shd rnd mod 2 = 1" by presburger
  then show ?case
    by (auto simp: Suc randrange_def pow_mod_def Let_def eval_nat_numeral)
qed

lemma mr_rounds_7: "mr_rounds j 7 1 3 rnd = (True, sdrop j rnd)"
proof (induction j arbitrary: rnd)
  case 0
  show ?case by simp
next
  case (Suc j)
  have "shd rnd mod 4 = 0 \<or> shd rnd mod 4 = 1 \<or> shd rnd mod 4 = 2 \<or> shd rnd mod 4 = 3"
    by presburger
  then show ?case
    by (auto simp: Suc randrange_def pow_mod_def Let_def eval_nat_numeral)
qed

lemma mr_5: "miller_rabin_test 5 10 rnd = Some (True, sdrop 10 rnd)"
  by (simp add: miller_rabin_test_def two_adic_4 mr_rounds_5)

lemma mr_7: "miller_rabin_test 7 10 rnd = Some (True, sdrop 10 rnd)"
  by (simp add: miller_rabin_test_def two_adic_6 mr_rounds_7)

lemma tiny_prime_5:
  "generate_prime 3 tiny_run = Some (Inr (5, sconst 2))"
proof -
  have "sdrop 10 (stl tiny_run) = sconst 2"
    by (simp add: tiny_run_def eval_nat_numeral)
  moreover have "shd tiny_run = 0" by (simp add: tiny_run_def)
  ultimately show ?thesis
    by (subst generate_prime.simps) (simp add: tiny_candidates tiny_no_hit mr_5)
qed

lemma tiny_prime_7:
  "generate_prime 3 (sconst 2) = Some (Inr (7, sconst 2))"
proof -
  have "sdrop 10 (stl (sconst 2)) = sconst (2::int)"
    by (simp add: eval_nat_numeral)
  then show ?thesis
    by (subst generate_prime.simps) (simp add: tiny_candidates tiny_no_hit mr_7)
qed

lemma tiny_lcm: "compute_lcm 4 6 = Inr 12"
  by code_simp

lemma tiny_inverse: "modular_inverse 990 12 35 = Inr 3"
  by code_simp

lemma tiny_store: "store_keypair 990 tiny_core 5 7 = Inr tiny_key"
  by (simp add: store_keypair_def tiny_lcm tiny_inverse tiny_core_def tiny_key_def)

lemma tiny_generated:
  "generate_keypair 990 tiny_core tiny_run = Some (Inr (tiny_key, sconst 2))"
proof -
  have b: "bit_length tiny_core div 2 = 3" by (simp add: tiny_core_def)
  have r: "resample_q 3 5 7 (sconst 2) = Some (Inr (7, sconst 2))"
    by (subst resample_q.simps) simp
  show ?thesis
    by (simp add: generate_keypair_def b tiny_prime_5 tiny_prime_7 r tiny_store)
qed

section \<open>Injectivity of encryption in the blinding factor\<close>




section \<open>The errors of key generation\<close>

lemma resample_q_InlD:
  assumes "resample_q bl p q rnd = Some res"
  shows "case res of Inl e \<Rightarrow> e = PyValueError | Inr qr \<Rightarrow> True"
  using assms
proof (induction bl p q rnd res rule: resample_q.raw_induct[rotated 1, consumes 1])
  case (1 f bl p q rnd res)
  show ?case
  proof (cases "p = q")
    case False
    with "1.hyps" show ?thesis by auto
  next
    case True
    show ?thesis
    proof (cases "generate_prime bl rnd")
      case None
      with True "1.hyps" show ?thesis by simp
    next
      case (Some r)
      show ?thesis
      proof (cases r)
        case (Inl e)
        with Some generate_prime_InlD[of bl rnd e] have "e = PyValueError" by simp
        with Inl Some True "1.hyps" show ?thesis by auto
      next
        case (Inr cr)
        obtain q' rnd1 where cr: "cr = (q', rnd1)" by (cases cr)
        with Inr Some True "1.hyps" have "f bl p q' rnd1 = Some res" by simp
        then show ?thesis by (rule "1.IH")
      qed
    qed
  qed
qed

lemma store_keypair_InlD:
  "store_keypair frames self p q = Inl e \<Longrightarrow>
     e = PyZeroDivisionError \<or> e = NoModularInverseError \<or> e = PyRecursionError"
  by (auto simp: store_keypair_def compute_lcm_def Let_def
      split: sum.splits if_splits dest: modular_inverse_InlD)

lemma generate_keypair_InlD:
  assumes "generate_keypair frames self rnd = Some (Inl e)"
  shows "e = PyValueError \<or> e = PyZeroDivisionError \<or> e = NoModularInverseError \<or>
         e = PyRecursionError"
proof -
  let ?b = "bit_length self div 2"
  show ?thesis
  proof (cases "generate_prime ?b rnd")
    case None
    with assms show ?thesis by (simp add: generate_keypair_def)
  next
    case (Some r1)
    show ?thesis
    proof (cases r1)
      case (Inl e1)
      with Some assms generate_prime_InlD[of ?b rnd e1] show ?thesis
        by (simp add: generate_keypair_def)
    next
      case (Inr pr)
      obtain p rnd1 where pr: "pr = (p, rnd1)" by (cases pr)
      show ?thesis
      proof (cases "generate_prime ?b rnd1")
        case None
        with Some Inr pr assms show ?thesis by (simp add: generate_keypair_def)
      next
        case s2: (Some r2)
        show ?thesis
        proof (cases r2)
          case (Inl e2)
          with s2 Some Inr pr assms generate_prime_InlD[of ?b rnd1 e2] show ?thesis
            by (simp add: generate_keypair_def)
        next
          case i2: (Inr qr)
          obtain q0 rnd2 where qr: "qr = (q0, rnd2)" by (cases qr)
          show ?thesis
          proof (cases "resample_q ?b p q0 rnd2")
            case None
            with s2 i2 qr Some Inr pr assms show ?thesis by (simp add: generate_keypair_def)
          next
            case s3: (Some r3)
            show ?thesis
            proof (cases r3)
              case (Inl e3)
              with resample_q_InlD[OF s3] have "e3 = PyValueError" by simp
              with Inl s3 s2 i2 qr Some Inr pr assms show ?thesis
                by (simp add: generate_keypair_def)
            next
              case i3: (Inr qq)
              obtain q rnd3 where qq: "qq = (q, rnd3)" by (cases qq)
              with i3 s3 s2 i2 qr Some Inr pr assms have "store_keypair frames self p q = Inl e"
                by (simp add: generate_keypair_def split: sum.splits)
              from store_keypair_InlD[OF this] show ?thesis by auto
            qed
          qed
        qed
      qed
    qed
  qed
qed

lemma create_paillier_instance_rejects:
  "bl < 512 \<or> bl mod 2 \<noteq> 0 \<Longrightarrow> create_paillier_instance frames bl rnd = Some (Inl InvalidKeySizeError)"
  by (auto simp: create_paillier_instance_def)

section \<open>More evaluations on the small keys\<close>












section \<open>The recursion depth on Fibonacci numbers\<close>

lemma fib_nonneg: "0 \<le> fib n"
  by (induction n rule: fib.induct) simp_all

lemma fib_pos: "0 < n \<Longrightarrow> 0 < fib n"
proof (induction n rule: fib.induct)
  case (3 n)
  have "0 \<le> fib n" by (rule fib_nonneg)
  moreover from "3.IH"(2) have "0 < fib (Suc n)" by simp
  ultimately show ?case by simp
qed simp_all

lemma fib_less: "2 \<le> n \<Longrightarrow> fib n < fib (Suc n)"
proof -
  assume "2 \<le> n"
  then obtain j where n: "n = Suc (Suc j)" by (metis Suc_le_D numeral_2_eq_2 Suc_le_mono)
  have "0 < fib (Suc j)" by (rule fib_pos) simp
  then show ?thesis by (simp add: n)
qed

lemma fib_mod: "2 \<le> n \<Longrightarrow> fib (Suc (Suc n)) mod fib (Suc n) = fib n"
proof -
  assume n: "2 \<le> n"
  from fib_less[OF n] fib_nonneg[of n] have "fib n mod fib (Suc n) = fib n" by simp
  moreover have "fib (Suc (Suc n)) mod fib (Suc n) = fib n mod fib (Suc n)" by simp
  ultimately show ?thesis by simp
qed

lemma fib_coprime: "coprime (fib n) (fib (Suc n))"
proof (induction n)
  case 0
  show ?case by simp
next
  case (Suc n)
  have "gcd (fib (Suc n)) (fib n + fib (Suc n)) = gcd (fib (Suc n)) (fib n)"
    by (metis gcd_add2 add.commute)
  with Suc have "coprime (fib (Suc n)) (fib n + fib (Suc n))"
    by (simp add: coprime_iff_gcd_eq_1 gcd.commute)
  then show ?case by simp
qed

lemma euclid_depth_fib:
  "euclid_depth (fib (Suc (Suc j))) (fib (Suc (Suc (Suc j)))) = Suc (Suc j)"
proof (induction j)
  case 0
  have "euclid_depth 1 2 = 2" by (simp add: euclid_depth.simps)
  then show ?case by (simp add: numeral_2_eq_2)
next
  case (Suc j)
  let ?a = "fib (Suc (Suc (Suc j)))"
  have a: "?a \<noteq> 0" using fib_pos[of "Suc (Suc (Suc j))"] by simp
  have m: "fib (Suc (Suc (Suc (Suc j)))) mod ?a = fib (Suc (Suc j))"
    by (rule fib_mod) simp
  show ?case
    by (subst euclid_depth.simps) (simp only: a m Suc if_False)
qed

lemma modular_inverse_fib:
  assumes f: "frames < k" and k: "2 \<le> k"
  shows "modular_inverse frames (fib k) (fib (Suc k)) = Inl PyRecursionError"
proof -
  from k obtain j where kj: "k = Suc (Suc j)" by (metis Suc_le_D numeral_2_eq_2 Suc_le_mono)
  from fib_less[OF k] fib_nonneg[of k] have r: "fib k mod fib (Suc k) = fib k" by simp
  from fib_pos[of "Suc k"] have nz: "fib (Suc k) \<noteq> 0" by simp
  have "euclid_depth (fib k) (fib (Suc k)) = k"
    unfolding kj by (rule euclid_depth_fib)
  with f have "frames < euclid_depth (fib k mod fib (Suc k)) (fib (Suc k))"
    by (simp only: r)
  from modular_inverse_deep[OF nz this] show ?thesis .
qed

section \<open>Evaluating modular powers\<close>




section \<open>A run of key generation that accepts the square of 37\<close>






























section \<open>A run of key generation that accepts 37 * 149\<close>

























section \<open>The claims\<close>

text \<open>
  Key generation tests its primes probabilistically: what it establishes of the \<open>p\<close> and
  \<open>q\<close> it multiplies is \<open>probable_prime\<close>, and every key it returns is stored by
  \<open>store_keypair\<close> from such a pair with \<open>p \<noteq> q\<close> (\<open>generate_keypair_SomeD\<close>). The
  properties that need no number theory (C4, C6, C9) are proved of every key that
  \<open>generate_keypair\<close> returns. The algebraic laws of the scheme (C1, C2, C3, C10) hold of
  the keys that \<open>store_keypair\<close> stores from primes, and fail on keys that
  \<open>generate_keypair\<close> returns from a composite that passed its test: each is proved under
  the primality of \<open>p\<close> and \<open>q\<close> and refuted, as stated, on such a key.
\<close>









text \<open>
  C5, as amended. For every \<open>m > 0\<close>, when the recursion of \<^verbatim>\<open>_extended_gcd\<close> fits in the
  frames the interpreter has left (\<open>euclid_depth (a mod m) m \<le> frames\<close>): if \<open>gcd a m = 1\<close>
  the modular inverse is some \<open>x\<close> with \<open>0 \<le> x < m\<close> and \<open>a * x\<close> congruent to 1 modulo
  \<open>m\<close>, that is \<open>(a * x) mod m = 1 mod m\<close> (which is 1 when \<open>m > 1\<close>), and if
  \<open>gcd a m \<noteq> 1\<close> the call fails with \<open>NoModularInverseError\<close>. When the recursion does not
  fit, the call fails with \<open>PyRecursionError\<close>, whatever the gcd.
\<close>

theorem modular_inverse_spec:
  "0 < m \<Longrightarrow>
     (euclid_depth (a mod m) m \<le> frames \<longrightarrow>
        (gcd a m = 1 \<longrightarrow>
           (\<exists>x. modular_inverse frames a m = Inr x \<and> 0 \<le> x \<and> x < m \<and>
                (a * x) mod m = 1 mod m)) \<and>
        (gcd a m \<noteq> 1 \<longrightarrow> modular_inverse frames a m = Inl NoModularInverseError)) \<and>
     (frames < euclid_depth (a mod m) m \<longrightarrow> modular_inverse frames a m = Inl PyRecursionError)"
  by (simp add: modular_inverse_Inr modular_inverse_Inl modular_inverse_deep)

theorem modular_inverse_spec_witness:
  "(0::int) < 7 \<and> euclid_depth (3 mod 7) 7 \<le> 990 \<and> gcd (3::int) 7 = 1 \<and>
   modular_inverse 990 3 7 = Inr 5 \<and> (3 * 5) mod (7::int) = 1 mod 7 \<and>
   (0::int) < 6 \<and> euclid_depth (4 mod 6) 6 \<le> 990 \<and> gcd (4::int) 6 \<noteq> 1 \<and>
   modular_inverse 990 4 6 = Inl NoModularInverseError \<and>
   (0::int) < 8 \<and> 3 < euclid_depth (5 mod 8) 8 \<and> modular_inverse 3 5 8 = Inl PyRecursionError"
proof -
  have d: "euclid_depth (3 mod 7) 7 = 3" "euclid_depth (4 mod 6) 6 = 3" "euclid_depth (5 mod 8) 8 = 5"
    by code_simp+
  have g: "gcd (3::int) 7 = 1" "gcd (4::int) 6 = 2"
    by code_simp+
  have v: "modular_inverse 990 3 7 = Inr 5"
    by code_simp
  show ?thesis
    using modular_inverse_spec[of 7 3 990] modular_inverse_spec[of 6 4 990]
      modular_inverse_spec[of 8 5 3] d g v
    by simp
qed

text \<open>
  C5, as stated, asks for \<open>(a * x) mod m = 1\<close> at every \<open>m > 0\<close> and for a result at every
  coprime pair. At \<open>m = 1\<close> every remainder is 0: the inverse of 0 modulo 1 is 0. And the
  recursion on two consecutive Fibonacci numbers, which are coprime, takes one frame per
  index: on \<open>fib 1000\<close> and \<open>fib 1001\<close> it needs 1000 frames, more than the 999 that the
  interpreter's limit of 1000 leaves at best under \<^verbatim>\<open>_modular_inverse\<close>, so the call raises
  \<^verbatim>\<open>RecursionError\<close>.
\<close>

theorem modular_inverse_mod_one_counterexample:
  "(0::int) < 1 \<and> gcd (0::int) 1 = 1 \<and> modular_inverse 990 0 1 = Inr 0 \<and>
   (0 * 0) mod (1::int) \<noteq> 1 \<and>
   0 < fib 1001 \<and> gcd (fib 1000) (fib 1001) = 1 \<and>
   modular_inverse 999 (fib 1000) (fib 1001) = Inl PyRecursionError"
proof -
  have "modular_inverse 990 0 1 = Inr 0"
    by code_simp
  moreover have "0 < fib 1001"
    by (rule fib_pos) simp
  moreover have "gcd (fib 1000) (fib 1001) = 1"
    using fib_coprime[of 1000] by (simp add: coprime_iff_gcd_eq_1)
  moreover have "modular_inverse 999 (fib 1000) (fib 1001) = Inl PyRecursionError"
    using modular_inverse_fib[of 999 1000] by simp
  ultimately show ?thesis by simp
qed

text \<open>
  C6. Key invariants: every key pair that key generation returns is stored from some
  \<open>p \<noteq> q\<close> with \<open>n = p * q\<close>, \<open>n_squared = n * n\<close>, \<open>g = n + 1\<close>,
  \<open>lambda = lcm (p - 1) (q - 1)\<close>, \<open>gcd lambda n = 1\<close> and \<open>(lambda * mu) mod n = 1\<close>.
  The operations on a key (\<open>encrypt\<close>, \<open>decrypt\<close>, \<open>homomorphic_add\<close>,
  \<open>homomorphic_multiply_constant\<close>) assign no field of the object in the source;
  accordingly they return a value and no object here, so the invariants stay.
\<close>

theorem generated_key_invariants:
  assumes "generate_keypair frames self rnd = Some (Inr (k, rnd'))"
  shows "\<exists>p q lam mu. p \<noteq> q \<and>
           public_key k = Some \<lparr>pk_n = p * q, pk_g = p * q + 1\<rparr> \<and>
           n_squared k = Some ((p * q) * (p * q)) \<and>
           private_key k = Some \<lparr>sk_lambda = lam, sk_mu = mu, sk_n = p * q\<rparr> \<and>
           lam = lcm (p - 1) (q - 1) \<and> gcd lam (p * q) = 1 \<and> (lam * mu) mod (p * q) = 1"
proof -
  from generate_keypair_SomeD[OF assms] obtain p q where
    pq: "2 \<le> p" "2 \<le> q" "p \<noteq> q" and k: "store_keypair frames self p q = Inr k" by blast
  from pq have "1 < p" "1 < q" by simp_all
  from store_keypair_InrD[OF k this] obtain mu where
    "k = self\<lparr>n_squared := Some (p * q * (p * q)),
                public_key := Some \<lparr>pk_n = p * q, pk_g = p * q + 1\<rparr>,
                private_key := Some \<lparr>sk_lambda = lcm (p - 1) (q - 1), sk_mu = mu, sk_n = p * q\<rparr>\<rparr>"
    "(lcm (p - 1) (q - 1) * mu) mod (p * q) = 1"
    "gcd (lcm (p - 1) (q - 1)) (p * q) = 1"
    by (elim exE conjE) (rule that, assumption+)
  with pq(3) show ?thesis
    by (intro exI[of _ p] exI[of _ q] exI[of _ "lcm (p - 1) (q - 1)"] exI[of _ mu]) simp
qed

theorem generated_key_invariants_witness:
  "generate_keypair 990 tiny_core tiny_run = Some (Inr (tiny_key, sconst 2)) \<and>
   (\<exists>p q lam mu. p \<noteq> q \<and>
           public_key tiny_key = Some \<lparr>pk_n = p * q, pk_g = p * q + 1\<rparr> \<and>
           n_squared tiny_key = Some ((p * q) * (p * q)) \<and>
           private_key tiny_key = Some \<lparr>sk_lambda = lam, sk_mu = mu, sk_n = p * q\<rparr> \<and>
           lam = lcm (p - 1) (q - 1) \<and> gcd lam (p * q) = 1 \<and> (lam * mu) mod (p * q) = 1)"
  using generated_key_invariants[OF tiny_generated] tiny_generated by simp

text \<open>
  C7. Key size validation. The factory \<^verbatim>\<open>create_paillier_instance\<close> rejects a bit length
  below 512 and an odd one before any prime is drawn (\<open>create_paillier_instance_rejects\<close>).
  The constructor \<^verbatim>\<open>PaillierCore(bit_length)\<close>, which the demonstrations and benchmarks of
  the repository call directly, checks the minimum only: at the odd bit length 513 it goes
  on to key generation, whose errors are never \<open>InvalidKeySizeError\<close>, while the factory
  rejects the same input.
\<close>

theorem constructor_accepts_odd_bit_length:
  "PaillierCore_init frames 513 rnd =
     generate_keypair frames \<lparr>bit_length = 513, public_key = None, private_key = None, n_squared = None\<rparr> rnd \<and>
   PaillierCore_init frames 513 rnd \<noteq> Some (Inl InvalidKeySizeError) \<and>
   create_paillier_instance frames 513 rnd = Some (Inl InvalidKeySizeError)"
proof -
  have 1: "PaillierCore_init frames 513 rnd =
     generate_keypair frames \<lparr>bit_length = 513, public_key = None, private_key = None, n_squared = None\<rparr> rnd"
    by (simp add: PaillierCore_init_def)
  have 2: "PaillierCore_init frames 513 rnd \<noteq> Some (Inl InvalidKeySizeError)"
    unfolding 1 using generate_keypair_InlD[of frames _ rnd InvalidKeySizeError] by auto
  have 3: "create_paillier_instance frames 513 rnd = Some (Inl InvalidKeySizeError)"
    by (rule create_paillier_instance_rejects) simp
  from 1 2 3 show ?thesis by simp
qed

text \<open>
  C8, as amended. The prime-generation loop has no iteration cap and no failure for
  exhaustion: for every bit length \<open>bl \<ge> 1\<close> and every run of the random source,
  \<open>generate_prime\<close> either never returns or returns a probable prime of exactly \<open>bl\<close>
  bits (an odd value in \<open>[2^(bl - 1), 2^bl)\<close> that no small prime divides and that passed
  ten Miller-Rabin rounds).
\<close>

theorem generate_prime_no_cap:
  "1 \<le> bl \<Longrightarrow>
     generate_prime bl rnd = None \<or>
     (\<exists>c rnd'. generate_prime bl rnd = Some (Inr (c, rnd')) \<and> probable_prime c \<and>
        odd c \<and> 2 ^ nat (bl - 1) \<le> c \<and> c < 2 ^ nat bl)"
proof (cases "generate_prime bl rnd")
  case (Some res)
  assume bl: "1 \<le> bl"
  show ?thesis
  proof (cases res)
    case (Inl e)
    with Some generate_prime_InlD[of bl rnd e] bl show ?thesis by simp
  next
    case (Inr cr)
    obtain c rnd' where cr: "cr = (c, rnd')" by (cases cr)
    with Inr Some generate_prime_InrD[of bl rnd c rnd'] obtain x where
      "probable_prime c" "c = make_candidate bl x" by auto
    with make_candidate_bounds[OF bl, of x] Inr Some cr show ?thesis by simp
  qed
qed simp

theorem generate_prime_no_cap_witness:
  "(1::int) \<le> 3 \<and> generate_prime 3 tiny_run = Some (Inr (5, sconst 2)) \<and> probable_prime 5 \<and>
   odd (5::int) \<and> (2::int) ^ nat (3 - 1) \<le> 5 \<and> (5::int) < 2 ^ nat 3 \<and>
   (1::int) \<le> 256 \<and> generate_prime 256 (sconst 0) = None"
proof -
  have "generate_prime 256 (sconst 0) = None"
    by (rule generate_prime_sconst[OF _ candidate_256_0]) simp
  then show ?thesis
    using generate_prime_no_cap[of 3 tiny_run] generate_prime_no_cap[of 256 "sconst 0"]
      tiny_prime_5
    by simp
qed

text \<open>
  C8, as stated, asks for a cap on the iterations. The loop is \<^verbatim>\<open>while True\<close>: when every
  draw is 0, each candidate at bit length 256 is \<open>2^255 + 1\<close>, which 3 divides, and the loop
  never ends; so neither does the constructor at the smallest key size, 512.
\<close>

theorem generate_prime_unbounded_counterexample:
  "generate_prime 256 (sconst 0) = None \<and> PaillierCore_init 990 512 (sconst 0) = None \<and>
   create_paillier_instance 990 512 (sconst 0) = None"
proof -
  have g: "generate_prime 256 (sconst 0) = None"
    by (rule generate_prime_sconst[OF _ candidate_256_0]) simp
  then show ?thesis
    by (simp add: create_paillier_instance_def PaillierCore_init_def generate_keypair_def)
qed

text \<open>
  C9. Decryption is total on a generated key: for every key pair that key generation
  returns and every integer \<open>c\<close> (negative, or at least \<open>n\<^sup>2\<close>, or never produced by
  \<open>encrypt\<close>), \<open>decrypt\<close> raises nothing and returns some plaintext in \<open>[0, n)\<close>.
\<close>

theorem decrypt_total:
  assumes "generate_keypair frames self rnd = Some (Inr (k, rnd'))"
  shows "\<exists>n g m. public_key k = Some \<lparr>pk_n = n, pk_g = g\<rparr> \<and>
           decrypt k c = Inr m \<and> 0 \<le> m \<and> m < n"
proof -
  from generate_keypair_SomeD[OF assms] obtain p q where
    pq: "2 \<le> p" "2 \<le> q" and k: "store_keypair frames self p q = Inr k" by blast
  from pq have p: "1 < p" and q: "1 < q" by simp_all
  then have n: "0 < p * q" by simp
  from store_keypair_InrD[OF k p q] have pk: "public_key k = Some \<lparr>pk_n = p * q, pk_g = p * q + 1\<rparr>"
    by (elim exE conjE) simp
  from decrypt_generated[OF k p q, of c] obtain m where m: "decrypt k c = Inr (m mod (p * q))"
    by (elim exE conjE) (rule that, assumption)
  from n have "0 \<le> m mod (p * q)" "m mod (p * q) < p * q" by simp_all
  with pk m show ?thesis by simp
qed

theorem decrypt_total_witness:
  "generate_keypair 990 tiny_core tiny_run = Some (Inr (tiny_key, sconst 2)) \<and>
   public_key tiny_key = Some \<lparr>pk_n = 35, pk_g = 36\<rparr> \<and>
   decrypt tiny_key (- 5) = Inr 13 \<and> decrypt tiny_key 2000 = Inr 23 \<and> decrypt tiny_key 0 = Inr 32"
proof -
  have "decrypt tiny_key (- 5) = Inr 13" "decrypt tiny_key 2000 = Inr 23" "decrypt tiny_key 0 = Inr 32"
    by (simp_all add: decrypt_def tiny_key_def py_pow_def py_mod_def pow_mod_def L_function_def)
  moreover have "public_key tiny_key = Some \<lparr>pk_n = 35, pk_g = 36\<rparr>"
    by (simp add: tiny_key_def)
  ultimately show ?thesis
    using decrypt_total[OF tiny_generated, of "- 5"] tiny_generated by simp
qed



end
